theory Spec2Isabelle
  imports Main "HOL-Library.Sublist"
begin

section \<open>Responses and errors (errors.go)\<close>

type_synonym bytes = "char list"

record Response =
  Text :: string
  Code :: int

definition StatusSuccess :: int where "StatusSuccess = 0"
definition StatusTokenDisabled :: int where "StatusTokenDisabled = 1"
definition StatusTokenRequired :: int where "StatusTokenRequired = 2"
definition StatusInvalidAuthorization :: int where "StatusInvalidAuthorization = 3"
definition StatusInvalidToken :: int where "StatusInvalidToken = 4"
definition StatusNoData :: int where "StatusNoData = 5"
definition StatusInvalidDataFormat :: int where "StatusInvalidDataFormat = 6"
definition StatusIncorrectIndex :: int where "StatusIncorrectIndex = 7"
definition StatusInternalServerError :: int where "StatusInternalServerError = 8"
definition StatusServerBusy :: int where "StatusServerBusy = 9"
definition StatusChannelMissing :: int where "StatusChannelMissing = 10"
definition StatusInvalidChannel :: int where "StatusInvalidChannel = 11"
definition StatusEventFieldRequired :: int where "StatusEventFieldRequired = 12"
definition StatusEventFieldBlank :: int where "StatusEventFieldBlank = 13"
definition StatusAckDisabled :: int where "StatusAckDisabled = 14"

definition retriable :: "int \<Rightarrow> bool" where
  "retriable code \<longleftrightarrow> code = StatusServerBusy \<or> code = StatusInternalServerError"

text \<open>
  The three places where \<open>Client.write\<close> returns the \<open>err\<close> of a library call:
  \<open>http.NewRequest\<close>, \<open>httpClient.Do\<close> and \<open>ioutil.ReadAll\<close>.
\<close>

datatype fault = NewRequestFailed | DoFailed | ReadAllFailed

text \<open>
  The values of Go's \<open>error\<close> that the client returns. \<open>ErrEventTooLong\<close> carries the
  field \<open>indexes\<close>; the nil slice of \<open>&ErrEventTooLong{}\<close> is the empty list (the code
  never builds a non-nil slice of length 0). A nil \<open>error\<close> is \<open>None\<close> of
  \<open>error option\<close>.
\<close>

datatype error =
    ErrTransport fault
  | ErrResponse Response
  | ErrEventTooLong "nat list"

definition GetIndexes :: "nat list \<Rightarrow> nat list" where
  "GetIndexes indexes = indexes"

section \<open>The client and the wire (hec.go)\<close>

record Client =
  serverURL :: string
  token :: string
  keepAlive :: bool
  channel :: string
  retries :: int
  maxLength :: int

definition defaultMaxContentLength :: int where
  "defaultMaxContentLength = 1000000"

definition NewClient :: "string \<Rightarrow> string \<Rightarrow> string \<Rightarrow> Client" where
  "NewClient url tok uuid =
     \<lparr>serverURL = url, token = tok, keepAlive = True, channel = uuid,
      retries = 2, maxLength = defaultMaxContentLength\<rparr>"

definition SetMaxRetry :: "int \<Rightarrow> Client \<Rightarrow> Client" where
  "SetMaxRetry n hec = hec\<lparr>retries := n\<rparr>"

definition SetMaxContentLength :: "int \<Rightarrow> Client \<Rightarrow> Client" where
  "SetMaxContentLength n hec = hec\<lparr>maxLength := n\<rparr>"

text \<open>
  What one pass through the \<open>RETRY\<close> label observes: a library call failed, or the
  exchange completed with an HTTP status and a body, of which the code only uses
  \<open>responseFrom(body)\<close>; the reply carries that decoded \<open>Response\<close>.
\<close>

datatype reply = Failed fault | Answered int Response

text \<open>
  The remote end: the reply to the request that is issued after \<open>k\<close> earlier requests
  and carries the given body. URL and headers do not influence any property below and
  are not part of the model.
\<close>

type_synonym net = "nat \<Rightarrow> bytes \<Rightarrow> reply"

text \<open>
  The observable trace of a call. \<open>sent\<close> has one entry per \<open>httpClient.Do\<close>,
  \<open>sleeps\<close> counts \<open>time.Sleep(retryWaitTime)\<close>, and \<open>emitted\<close> has one entry per
  call of \<open>Client.write\<close>: the body it was given and the error it returned.
\<close>

record wire =
  emitted :: "(bytes \<times> error option) list"
  sent :: "bytes list"
  sleeps :: nat

definition idle :: wire where
  "idle = \<lparr>emitted = [], sent = [], sleeps = 0\<rparr>"

definition StatusOK :: int where "StatusOK = 200"

text \<open>The body of \<open>Client.write\<close> from the label \<open>RETRY\<close> on, with the local counter.\<close>

function RETRY :: "Client \<Rightarrow> net \<Rightarrow> bytes \<Rightarrow> int \<Rightarrow> wire \<Rightarrow> error option \<times> wire" where
  "RETRY hec srv data n w =
     (case srv (length (sent w)) data of
        Failed f \<Rightarrow>
          (Some (ErrTransport f),
           if f = NewRequestFailed then w else w\<lparr>sent := sent w @ [data]\<rparr>)
      | Answered status response \<Rightarrow>
          (if status \<noteq> StatusOK then
             (if retriable (Code response) \<and> n < retries hec
              then RETRY hec srv data (n + 1)
                     (w\<lparr>sent := sent w @ [data], sleeps := Suc (sleeps w)\<rparr>)
              else (Some (ErrResponse response), w\<lparr>sent := sent w @ [data]\<rparr>))
           else (None, w\<lparr>sent := sent w @ [data]\<rparr>)))"
  by pat_completeness auto
termination
  by (relation "measure (\<lambda>(hec, srv, data, n, w). nat (retries hec - n))") auto

declare RETRY.simps [simp del]

definition write_body :: "Client \<Rightarrow> net \<Rightarrow> bytes \<Rightarrow> wire \<Rightarrow> error option \<times> wire" where
  "write_body hec srv data w =
     (case RETRY hec srv data 0 w of
        (err, w') \<Rightarrow> (err, w'\<lparr>emitted := emitted w' @ [(data, err)]\<rparr>))"

section \<open>Events\<close>

text \<open>
  The type \<open>Event\<close>, its method \<open>empty\<close> and its JSON encoding are declared outside the
  files at hand. They enter as a parameter: \<open>empty cd e\<close> is \<open>e.empty()\<close> and
  \<open>marshal cd e\<close> is the first result of \<open>json.Marshal(e)\<close>.
\<close>

record 'e codec =
  empty :: "'e \<Rightarrow> bool"
  marshal :: "'e \<Rightarrow> bytes"

definition WriteEvent :: "Client \<Rightarrow> 'e codec \<Rightarrow> net \<Rightarrow> 'e \<Rightarrow> wire \<Rightarrow> error option \<times> wire" where
  "WriteEvent hec cd srv event w =
     (if empty cd event then (None, w)
      else let data = marshal cd event in
        if int (length data) > maxLength hec then (Some (ErrEventTooLong []), w)
        else write_body hec srv data w)"

text \<open>
  The \<open>for index, event := range events\<close> loop of \<open>WriteBatch\<close>. \<open>Inl err\<close> is the
  \<open>return err\<close> inside the loop; \<open>Inr\<close> carries \<open>buffer\<close> and \<open>tooLongs\<close> out of it.
\<close>

fun WriteBatch_loop ::
  "Client \<Rightarrow> 'e codec \<Rightarrow> net \<Rightarrow> nat \<Rightarrow> 'e list \<Rightarrow> bytes \<Rightarrow> nat list \<Rightarrow> wire
     \<Rightarrow> (error + bytes \<times> nat list) \<times> wire" where
  "WriteBatch_loop hec cd srv index [] buffer tooLongs w = (Inr (buffer, tooLongs), w)"
| "WriteBatch_loop hec cd srv index (event # events) buffer tooLongs w =
     (if empty cd event then WriteBatch_loop hec cd srv (Suc index) events buffer tooLongs w
      else let data = marshal cd event in
        if int (length data) > maxLength hec
        then WriteBatch_loop hec cd srv (Suc index) events buffer (tooLongs @ [index]) w
        else if int (length buffer) + int (length data) > maxLength hec
        then (case write_body hec srv buffer w of
                (Some err, w') \<Rightarrow> (Inl err, w')
              | (None, w') \<Rightarrow> WriteBatch_loop hec cd srv (Suc index) events data tooLongs w')
        else WriteBatch_loop hec cd srv (Suc index) events (buffer @ data) tooLongs w)"

text \<open>What follows the loop in both \<open>WriteBatch\<close> and \<open>WriteRaw\<close>: the last flush and the report.\<close>

definition finish :: "Client \<Rightarrow> net \<Rightarrow> bytes \<Rightarrow> nat list \<Rightarrow> wire \<Rightarrow> error option \<times> wire" where
  "finish hec srv buffer tooLongs w =
     (if length buffer > 0 then
        (case write_body hec srv buffer w of
           (Some err, w') \<Rightarrow> (Some err, w')
         | (None, w') \<Rightarrow>
             (if length tooLongs > 0 then (Some (ErrEventTooLong tooLongs), w') else (None, w')))
      else if length tooLongs > 0 then (Some (ErrEventTooLong tooLongs), w) else (None, w))"

definition WriteBatch :: "Client \<Rightarrow> 'e codec \<Rightarrow> net \<Rightarrow> 'e list \<Rightarrow> wire \<Rightarrow> error option \<times> wire" where
  "WriteBatch hec cd srv events w =
     (if length events = 0 then (None, w)
      else case WriteBatch_loop hec cd srv 0 events [] [] w of
        (Inl err, w') \<Rightarrow> (Some err, w')
      | (Inr (buffer, tooLongs), w') \<Rightarrow> finish hec srv buffer tooLongs w')"

section \<open>Raw mode\<close>

definition LF :: char where "LF = CHR 0x0A"
definition CR :: char where "CR = CHR 0x0D"

text \<open>
  \<open>bufio.NewScanner(reader)\<close> with its default split function \<open>bufio.ScanLines\<close> and
  its default buffer limit \<open>bufio.MaxScanTokenSize\<close>. A line ends at the first \<open>'\n'\<close>;
  one trailing \<open>'\r'\<close> is dropped from it; a last line without \<open>'\n'\<close> is a line if it
  is not empty. \<open>Scan\<close> returns false at the end of the input and also, with
  \<open>ErrTooLong\<close>, when the bytes before the next \<open>'\n'\<close> (or before the end of the
  input, for a reader that reports the end on a read of its own) fill the buffer of
  \<open>MaxScanTokenSize\<close> bytes. \<open>WriteRaw\<close> never looks at \<open>scanner.Err()\<close>, so both ends of
  the scan look the same to it. The reader is taken to deliver all its bytes without an
  error of its own.
\<close>

definition MaxScanTokenSize :: nat where
  "MaxScanTokenSize = 64 * 1024"

definition dropCR :: "bytes \<Rightarrow> bytes" where
  "dropCR data = (if length data > 0 \<and> last data = CR then butlast data else data)"

text \<open>All the values of \<open>scanner.Bytes()\<close>, one per successful \<open>scanner.Scan()\<close>, in order.\<close>

function scan :: "bytes \<Rightarrow> bytes list" where
  "scan data =
     (if data = [] then []
      else let line = takeWhile (\<lambda>b. b \<noteq> LF) data in
        if length line \<ge> MaxScanTokenSize then []
        else dropCR line # scan (drop (Suc (length line)) data))"
  by pat_completeness auto
termination
  by (relation "measure length") auto

declare scan.simps [simp del]

text \<open>The \<open>for lineNo := 1; scanner.Scan(); lineNo++\<close> loop of \<open>WriteRaw\<close>.\<close>

fun WriteRaw_loop ::
  "Client \<Rightarrow> net \<Rightarrow> nat \<Rightarrow> bytes list \<Rightarrow> bytes \<Rightarrow> nat list \<Rightarrow> wire
     \<Rightarrow> (error + bytes \<times> nat list) \<times> wire" where
  "WriteRaw_loop hec srv lineNo [] buf tooLongs w = (Inr (buf, tooLongs), w)"
| "WriteRaw_loop hec srv lineNo (line # lines) buf tooLongs w =
     (if int (length line) > maxLength hec
      then WriteRaw_loop hec srv (Suc lineNo) lines buf (tooLongs @ [lineNo]) w
      else if int (length buf) + int (length line) + 1 > maxLength hec
      then (case write_body hec srv buf w of
              (Some err, w') \<Rightarrow> (Inl err, w')
            | (None, w') \<Rightarrow> WriteRaw_loop hec srv (Suc lineNo) lines (line @ [LF]) tooLongs w')
      else WriteRaw_loop hec srv (Suc lineNo) lines (buf @ line @ [LF]) tooLongs w)"

definition WriteRaw :: "Client \<Rightarrow> net \<Rightarrow> bytes \<Rightarrow> wire \<Rightarrow> error option \<times> wire" where
  "WriteRaw hec srv input w =
     (case WriteRaw_loop hec srv 1 (scan input) [] [] w of
        (Inl err, w') \<Rightarrow> (Some err, w')
      | (Inr (buf, tooLongs), w') \<Rightarrow> finish hec srv buf tooLongs w')"

section \<open>Measures used in the statements\<close>

text \<open>A record that \<open>WriteBatch\<close> puts into a body, and one that it lists as too long.\<close>

definition accepted :: "Client \<Rightarrow> 'e codec \<Rightarrow> 'e \<Rightarrow> bool" where
  "accepted hec cd e \<longleftrightarrow> \<not> empty cd e \<and> int (length (marshal cd e)) \<le> maxLength hec"

definition oversize :: "Client \<Rightarrow> 'e codec \<Rightarrow> 'e \<Rightarrow> bool" where
  "oversize hec cd e \<longleftrightarrow> \<not> empty cd e \<and> int (length (marshal cd e)) > maxLength hec"

definition accepted_bytes :: "Client \<Rightarrow> 'e codec \<Rightarrow> 'e list \<Rightarrow> nat" where
  "accepted_bytes hec cd events =
     sum_list (map (\<lambda>e. length (marshal cd e)) (filter (accepted hec cd) events))"

definition emitted_bytes :: "wire \<Rightarrow> nat" where
  "emitted_bytes w = sum_list (map (\<lambda>x. length (fst x)) (emitted w))"

text \<open>The positions, counted from \<open>i\<close>, of the elements of a list that satisfy \<open>P\<close>.\<close>

definition positions :: "('a \<Rightarrow> bool) \<Rightarrow> nat \<Rightarrow> 'a list \<Rightarrow> nat list" where
  "positions P i xs = map fst (filter (\<lambda>x. P (snd x)) (enumerate i xs))"

text \<open>A line that \<open>WriteRaw\<close> lists as too long, and a line with its terminator.\<close>

definition long_line :: "Client \<Rightarrow> bytes \<Rightarrow> bool" where
  "long_line hec line \<longleftrightarrow> int (length line) > maxLength hec"

definition short_line :: "Client \<Rightarrow> bytes \<Rightarrow> bool" where
  "short_line hec line \<longleftrightarrow> \<not> long_line hec line"

definition terminated :: "bytes \<Rightarrow> bytes" where
  "terminated line = line @ [LF]"

text \<open>The call ended without the error of a transmission: with nil or with the list.\<close>

fun no_fault :: "error option \<Rightarrow> bool" where
  "no_fault None = True"
| "no_fault (Some (ErrEventTooLong l)) = True"
| "no_fault (Some (ErrTransport f)) = False"
| "no_fault (Some (ErrResponse r)) = False"

text \<open>No transmission logged so far has failed.\<close>

definition clean :: "wire \<Rightarrow> bool" where
  "clean w \<longleftrightarrow> list_all (\<lambda>x. snd x = None) (emitted w)"

text \<open>
  A body made of whole lines: the concatenation of some consecutive lines of the given
  list, each followed by one \<open>LF\<close>.
\<close>

definition whole_lines :: "bytes list \<Rightarrow> bytes \<Rightarrow> bool" where
  "whole_lines lines body \<longleftrightarrow> (\<exists>ls. sublist ls lines \<and> body = concat (map terminated ls))"

text \<open>Every body that went over the wire was handed to \<open>write\<close>.\<close>

definition logged :: "wire \<Rightarrow> bool" where
  "logged w \<longleftrightarrow> set (sent w) \<subseteq> fst ` set (emitted w)"

text \<open>A body that is not empty and not longer than the limit of the client.\<close>

definition bounded :: "Client \<Rightarrow> bytes \<Rightarrow> bool" where
  "bounded hec body \<longleftrightarrow> 1 \<le> length body \<and> int (length body) \<le> maxLength hec"

section \<open>Sample clients, remote ends and events\<close>

definition success :: Response where
  "success = \<lparr>Text = ''Success'', Code = StatusSuccess\<rparr>"

definition busy :: Response where
  "busy = \<lparr>Text = ''Server is busy'', Code = StatusServerBusy\<rparr>"

definition always_ok :: net where
  "always_ok k body = Answered StatusOK success"

definition busy_twice_each :: net where
  "busy_twice_each k body = (if k mod 3 < 2 then Answered 503 busy else Answered StatusOK success)"

definition invalid_token :: net where
  "invalid_token k body = Answered 403 \<lparr>Text = ''Invalid token'', Code = StatusInvalidToken\<rparr>"

definition unreachable :: net where
  "unreachable k body = Failed DoFailed"

definition client :: "int \<Rightarrow> Client" where
  "client n = SetMaxContentLength n (NewClient ''http://localhost:8088'' ''token'' ''channel'')"

text \<open>
  An instance of the event parameter for the examples: an event with nothing but a plain
  text payload, empty when the payload is blank, encoded as the object
  \<^verbatim>\<open>{"event":"..."}\<close> of the tests (\<open>Event{Event: "event one"}\<close>).
\<close>

definition text_codec :: "string codec" where
  \<open>text_codec = \<lparr>empty = (\<lambda>s. s = []), marshal = (\<lambda>s. ''{"event":"'' @ s @ ''"}'')\<rparr>\<close>

lemmas sample_defs = client_def SetMaxContentLength_def SetMaxRetry_def NewClient_def
  defaultMaxContentLength_def text_codec_def always_ok_def unreachable_def invalid_token_def
  busy_twice_each_def success_def busy_def idle_def StatusOK_def

lemmas run_defs = WriteBatch_def WriteRaw_def WriteEvent_def finish_def write_body_def
  RETRY.simps Let_def retriable_def

section \<open>The retrier\<close>

lemma RETRY_emitted: "emitted (snd (RETRY hec srv data n w)) = emitted w"
proof (induction hec srv data n w rule: RETRY.induct)
  case (1 hec srv data n w)
  show ?case
    by (subst RETRY.simps) (auto split: reply.splits simp: 1)
qed

lemma RETRY_sent: "\<exists>k. sent (snd (RETRY hec srv data n w)) = sent w @ replicate k data"
proof (induction hec srv data n w rule: RETRY.induct)
  case (1 hec srv data n w)
  show ?case
  proof (cases "srv (length (sent w)) data")
    case (Failed f)
    then show ?thesis
      by (subst RETRY.simps) (auto intro: exI [of _ 0] exI [of _ 1])
  next
    case (Answered status response)
    show ?thesis
    proof (cases "status \<noteq> StatusOK \<and> retriable (Code response) \<and> n < retries hec")
      case True
      with 1 [OF Answered] obtain k where
        "sent (snd (RETRY hec srv data (n + 1)
            (w\<lparr>sent := sent w @ [data], sleeps := Suc (sleeps w)\<rparr>))) = (sent w @ [data]) @ replicate k data"
        by auto
      then have "sent (snd (RETRY hec srv data n w)) = sent w @ replicate (Suc k) data"
        using True Answered by (subst RETRY.simps) simp
      then show ?thesis by blast
    next
      case False
      then show ?thesis using Answered
        by (subst RETRY.simps) (auto intro: exI [of _ 1])
    qed
  qed
qed

lemma RETRY_error: "fst (RETRY hec srv data n w) = Some e \<Longrightarrow> (\<forall>l. e \<noteq> ErrEventTooLong l)"
proof (induction hec srv data n w rule: RETRY.induct)
  case (1 hec srv data n w)
  from "1.prems" show ?case
    by (subst (asm) RETRY.simps) (auto split: reply.splits if_splits dest: "1.IH")
qed

lemma write_body_emitted:
  "write_body hec srv data w = (r, w') \<Longrightarrow> emitted w' = emitted w @ [(data, r)]"
  using RETRY_emitted [of hec srv data 0 w]
  by (auto simp: write_body_def split: prod.splits)

lemma write_body_sent:
  "write_body hec srv data w = (r, w') \<Longrightarrow> \<exists>k. sent w' = sent w @ replicate k data"
  using RETRY_sent [of hec srv data 0 w]
  by (auto simp: write_body_def split: prod.splits)

lemma write_body_error:
  "write_body hec srv data w = (Some e, w') \<Longrightarrow> e \<noteq> ErrEventTooLong l"
  using RETRY_error [of hec srv data 0 w e]
  by (auto simp: write_body_def split: prod.splits)

text \<open>
  Claim C5. The classifier \<open>retriable\<close> is true exactly for the codes 9 (server busy) and
  8 (internal server error). The retrier reads a response code only from a reply whose
  HTTP status is not 200; when that code is any other than 9 and 8, \<open>write\<close> returns the
  decoded response itself as the error after this single request, without a wait,
  whatever the retry limit of the client is.
\<close>

theorem retriable_exactly_busy_and_internal:
  "(retriable code \<longleftrightarrow> code = 9 \<or> code = 8) \<and>
   (srv (length (sent w)) data = Answered status response \<longrightarrow> status \<noteq> StatusOK \<longrightarrow>
    Code response \<noteq> 9 \<longrightarrow> Code response \<noteq> 8 \<longrightarrow>
      write_body hec srv data w =
        (Some (ErrResponse response),
         w\<lparr>sent := sent w @ [data],
           emitted := emitted w @ [(data, Some (ErrResponse response))]\<rparr>))"
  by (simp add: retriable_def StatusServerBusy_def StatusInternalServerError_def
      write_body_def RETRY.simps [of hec srv data 0 w])

theorem retriable_exactly_busy_and_internal_witness:
  "retriable 9 \<and> retriable 8 \<and> \<not> retriable 4 \<and>
   write_body (SetMaxRetry 1000 (client 100)) invalid_token ''x'' idle =
     (Some (ErrResponse \<lparr>Text = ''Invalid token'', Code = 4\<rparr>),
      \<lparr>emitted = [(''x'', Some (ErrResponse \<lparr>Text = ''Invalid token'', Code = 4\<rparr>))],
       sent = [''x''], sleeps = 0\<rparr>)"
  using retriable_exactly_busy_and_internal [of 9]
    retriable_exactly_busy_and_internal [of 8]
    retriable_exactly_busy_and_internal [of 4 invalid_token idle "''x''" 403
      "\<lparr>Text = ''Invalid token'', Code = 4\<rparr>" "SetMaxRetry 1000 (client 100)"]
  by (simp add: invalid_token_def idle_def StatusInvalidToken_def StatusOK_def)

text \<open>
  Claim C6. With a retry limit of at least 2, a body whose first two requests are answered
  with a non-200 status and code 9 and whose third request is answered with status 200 is
  written successfully with exactly three requests and exactly two waits. The counter is
  local to the call of \<open>write\<close>: the statement holds from any state of the wire, whatever
  number of retries earlier bodies have used, and the witness writes two bodies in a row
  that each use both retries of a limit of 2.
\<close>

theorem busy_twice_then_success:
  assumes "2 \<le> retries hec"
    and "srv (length (sent w)) data = Answered s1 r1" and "s1 \<noteq> StatusOK" and "Code r1 = 9"
    and "srv (length (sent w) + 1) data = Answered s2 r2" and "s2 \<noteq> StatusOK" and "Code r2 = 9"
    and "srv (length (sent w) + 2) data = Answered StatusOK r3"
  shows "write_body hec srv data w =
     (None, w\<lparr>sent := sent w @ [data, data, data], sleeps := sleeps w + 2,
              emitted := emitted w @ [(data, None)]\<rparr>)"
proof -
  let ?w1 = "w\<lparr>sent := sent w @ [data], sleeps := Suc (sleeps w)\<rparr>"
  let ?w2 = "?w1\<lparr>sent := sent ?w1 @ [data], sleeps := Suc (sleeps ?w1)\<rparr>"
  have 1: "RETRY hec srv data 0 w = RETRY hec srv data 1 ?w1"
    using assms by (subst RETRY.simps) (simp add: retriable_def StatusServerBusy_def)
  have 2: "RETRY hec srv data 1 ?w1 = RETRY hec srv data 2 ?w2"
    using assms by (subst RETRY.simps) (simp add: retriable_def StatusServerBusy_def)
  have 3: "RETRY hec srv data 2 ?w2 = (None, ?w2\<lparr>sent := sent ?w2 @ [data]\<rparr>)"
    using assms by (subst RETRY.simps) (simp add: numeral_2_eq_2)
  have "RETRY hec srv data 0 w =
      (None, w\<lparr>sent := sent w @ [data, data, data], sleeps := sleeps w + 2\<rparr>)"
    unfolding 1 2 3 by simp
  then show ?thesis
    by (simp add: write_body_def)
qed

theorem busy_twice_then_success_witness:
  "write_body (client 100) busy_twice_each ''second''
      (snd (write_body (client 100) busy_twice_each ''first'' idle)) =
     (None, \<lparr>emitted = [(''first'', None), (''second'', None)],
             sent = [''first'', ''first'', ''first'', ''second'', ''second'', ''second''],
             sleeps = 4\<rparr>)"
proof -
  let ?hec = "client 100"
  have lim: "2 \<le> retries ?hec"
    by (simp add: client_def SetMaxContentLength_def NewClient_def)
  have first: "write_body ?hec busy_twice_each ''first'' idle =
      (None, \<lparr>emitted = [(''first'', None)], sent = [''first'', ''first'', ''first''], sleeps = 2\<rparr>)"
    using busy_twice_then_success [of ?hec busy_twice_each idle "''first''" 503 busy 503 busy success]
      lim
    by (simp add: busy_twice_each_def idle_def StatusOK_def busy_def StatusServerBusy_def)
  show ?thesis
    using busy_twice_then_success [of ?hec busy_twice_each
        "\<lparr>emitted = [(''first'', None)], sent = [''first'', ''first'', ''first''], sleeps = 2\<rparr>"
        "''second''" 503 busy 503 busy success] lim
    by (simp add: first busy_twice_each_def StatusOK_def busy_def StatusServerBusy_def)
qed

section \<open>The batch loop\<close>

lemma write_body_clean:
  "write_body hec srv data w = (None, w') \<Longrightarrow> clean w \<Longrightarrow> clean w'"
  by (drule write_body_emitted) (simp add: clean_def)

lemma write_body_failed:
  "write_body hec srv data w = (Some e, w') \<Longrightarrow> clean w \<Longrightarrow>
     emitted w' \<noteq> [] \<and> snd (last (emitted w')) = Some e \<and> butlast (emitted w') = emitted w"
  by (drule write_body_emitted) simp

lemma WriteBatch_loop_clean:
  "WriteBatch_loop hec cd srv i xs buf ls w = (Inr p, w') \<Longrightarrow> clean w \<Longrightarrow> clean w'"
proof (induction xs arbitrary: i buf ls w)
  case Nil
  then show ?case by simp
next
  case (Cons x xs)
  from Cons.prems show ?case
    by (auto simp: Let_def split: if_splits prod.splits option.splits
        dest: Cons.IH write_body_clean)
qed

lemma WriteBatch_loop_failed:
  "WriteBatch_loop hec cd srv i xs buf ls w = (Inl e, w') \<Longrightarrow> clean w \<Longrightarrow>
     emitted w' \<noteq> [] \<and> snd (last (emitted w')) = Some e \<and>
     list_all (\<lambda>x. snd x = None) (butlast (emitted w')) \<and> (\<forall>l. e \<noteq> ErrEventTooLong l)"
proof (induction xs arbitrary: i buf ls w)
  case Nil
  then show ?case by simp
next
  case (Cons x xs)
  show ?case
  proof (cases "accepted hec cd x \<and> int (length buf) + int (length (marshal cd x)) > maxLength hec")
    case False
    with Cons.prems Cons.IH show ?thesis
      by (auto simp: Let_def accepted_def split: if_splits)
  next
    case True
    obtain r w1 where w1: "write_body hec srv buf w = (r, w1)" by (cases "write_body hec srv buf w")
    show ?thesis
    proof (cases r)
      case None
      with True w1 Cons.prems have "WriteBatch_loop hec cd srv (Suc i) xs (marshal cd x) ls w1 = (Inl e, w')"
        by (auto simp: Let_def accepted_def split: if_splits)
      moreover have "clean w1" using w1 None Cons.prems write_body_clean by blast
      ultimately show ?thesis by (rule Cons.IH)
    next
      case (Some err)
      with True w1 Cons.prems have "err = e" "w1 = w'"
        by (auto simp: Let_def accepted_def split: if_splits)
      with w1 Some write_body_failed [of hec srv buf w e w'] write_body_error [of hec srv buf w e w']
        Cons.prems(2)
      show ?thesis by (auto simp: clean_def)
    qed
  qed
qed

lemma WriteBatch_loop_append:
  "WriteBatch_loop hec cd srv i xs buf ls w = (Inl e, w') \<Longrightarrow>
   WriteBatch_loop hec cd srv i (xs @ ys) buf ls w = (Inl e, w')"
proof (induction xs arbitrary: i buf ls w)
  case Nil
  then show ?case by simp
next
  case (Cons x xs)
  from Cons.prems show ?case
    by (auto simp: Let_def split: if_splits prod.splits option.splits
        dest: Cons.IH)
qed

lemma WriteBatch_loop_tooLongs:
  "WriteBatch_loop hec cd srv i xs buf ls w = (Inr (buf', ls'), w') \<Longrightarrow>
   ls' = ls @ positions (oversize hec cd) i xs"
proof (induction xs arbitrary: i buf ls w)
  case Nil
  then show ?case by (simp add: positions_def)
next
  case (Cons x xs)
  from Cons.prems show ?case
    by (auto simp: Let_def positions_def oversize_def enumerate_simps
        split: if_splits prod.splits option.splits dest: Cons.IH)
qed

lemma WriteBatch_loop_bytes:
  "WriteBatch_loop hec cd srv i xs buf ls w = (Inr (buf', ls'), w') \<Longrightarrow>
   emitted_bytes w' + length buf' = emitted_bytes w + length buf + accepted_bytes hec cd xs"
proof (induction xs arbitrary: i buf ls w)
  case Nil
  then show ?case by (simp add: accepted_bytes_def)
next
  case (Cons x xs)
  have step: "accepted hec cd x \<Longrightarrow>
      accepted_bytes hec cd (x # xs) = length (marshal cd x) + accepted_bytes hec cd xs"
    and skip: "\<not> accepted hec cd x \<Longrightarrow> accepted_bytes hec cd (x # xs) = accepted_bytes hec cd xs"
    by (simp_all add: accepted_bytes_def)
  show ?case
  proof (cases "accepted hec cd x")
    case False
    with Cons.prems Cons.IH show ?thesis
      by (auto simp: Let_def skip accepted_def split: if_splits)
  next
    case True
    show ?thesis
    proof (cases "int (length buf) + int (length (marshal cd x)) > maxLength hec")
      case False
      with True Cons.prems have
        "WriteBatch_loop hec cd srv (Suc i) xs (buf @ marshal cd x) ls w = (Inr (buf', ls'), w')"
        by (auto simp: Let_def accepted_def split: if_splits)
      from Cons.IH [OF this] show ?thesis by (simp add: step [OF True])
    next
      case over: True
      obtain r w1 where w1: "write_body hec srv buf w = (r, w1)" by (cases "write_body hec srv buf w")
      with over True Cons.prems have r: "r = None"
        and rec: "WriteBatch_loop hec cd srv (Suc i) xs (marshal cd x) ls w1 = (Inr (buf', ls'), w')"
        by (auto simp: Let_def accepted_def split: if_splits option.splits)
      have "emitted_bytes w1 = emitted_bytes w + length buf"
        using write_body_emitted [OF w1] by (simp add: emitted_bytes_def)
      with Cons.IH [OF rec] show ?thesis by (simp add: step [OF True])
    qed
  qed
qed

lemma WriteBatch_loop_all_empty:
  "list_all (empty cd) xs \<Longrightarrow> WriteBatch_loop hec cd srv i xs buf ls w = (Inr (buf, ls), w)"
  by (induction xs arbitrary: i) auto

lemma no_fault_iff: "no_fault (Some e) \<longleftrightarrow> (\<exists>l. e = ErrEventTooLong l)"
  by (cases e) auto

lemma finish_no_fault:
  assumes "finish hec srv buf ls w = (r, w')" and "no_fault r"
  shows "r = (if ls = [] then None else Some (ErrEventTooLong ls))"
    and "emitted_bytes w' = emitted_bytes w + length buf"
    and "clean w \<Longrightarrow> clean w'"
proof -
  obtain r1 w1 where w1: "write_body hec srv buf w = (r1, w1)" by (cases "write_body hec srv buf w")
  have bytes: "emitted_bytes w1 = emitted_bytes w + length buf"
    using write_body_emitted [OF w1] by (simp add: emitted_bytes_def)
  have r1: "buf \<noteq> [] \<Longrightarrow> r1 = None"
    using assms w1 write_body_error [of hec srv buf w _ w1]
    by (cases r1) (auto simp: finish_def no_fault_iff)
  show "r = (if ls = [] then None else Some (ErrEventTooLong ls))"
    using assms w1 r1 by (cases "buf = []") (auto simp: finish_def)
  show "emitted_bytes w' = emitted_bytes w + length buf"
    using assms w1 r1 bytes by (cases "buf = []") (auto simp: finish_def split: if_splits)
  show "clean w'" if "clean w"
    using assms w1 r1 that write_body_clean [of hec srv buf w w1]
    by (cases "buf = []") (auto simp: finish_def split: if_splits)
qed

lemma finish_failed:
  assumes "finish hec srv buf ls w = (r, w')" and "clean w"
  shows "list_all (\<lambda>x. snd x = None) (butlast (emitted w'))"
    and "emitted w' \<noteq> [] \<Longrightarrow> snd (last (emitted w')) = Some e \<Longrightarrow> r = Some e \<and> \<not> no_fault r"
proof -
  obtain r1 w1 where w1: "write_body hec srv buf w = (r1, w1)" by (cases "write_body hec srv buf w")
  note em = write_body_emitted [OF w1]
  have same: "buf = [] \<Longrightarrow> w' = w"
    using assms by (auto simp: finish_def split: if_splits)
  have wrote: "buf \<noteq> [] \<Longrightarrow> w' = w1 \<and> (r1 \<noteq> None \<longrightarrow> r = r1)"
    using assms w1 by (auto simp: finish_def split: if_splits option.splits)
  show "list_all (\<lambda>x. snd x = None) (butlast (emitted w'))"
  proof (cases "buf = []")
    case True
    with same assms(2) show ?thesis
      by (auto simp: clean_def list_all_iff dest: in_set_butlastD)
  next
    case False
    with wrote em assms(2) show ?thesis by (simp add: clean_def)
  qed
  show "r = Some e \<and> \<not> no_fault r" if ne: "emitted w' \<noteq> []" and l: "snd (last (emitted w')) = Some e"
  proof (cases "buf = []")
    case True
    with same assms(2) ne l show ?thesis
      by (auto simp: clean_def list_all_iff dest: last_in_set)
  next
    case False
    with wrote em l have "r1 = Some e" "r = Some e" by auto
    with w1 write_body_error [of hec srv buf w e w1] show ?thesis
      by (auto simp: no_fault_iff)
  qed
qed

lemma clean_idle: "clean idle"
  by (simp add: clean_def idle_def)

lemma emitted_bytes_idle: "emitted_bytes idle = 0"
  by (simp add: emitted_bytes_def idle_def)

lemma WriteBatch_loop_error:
  "WriteBatch_loop hec cd srv i xs buf ls w \<noteq> (Inl (ErrEventTooLong l), w')"
proof (induction xs arbitrary: i buf ls w)
  case Nil
  then show ?case by simp
next
  case (Cons x xs)
  show ?case
    using Cons.IH write_body_error [of hec srv buf w "ErrEventTooLong l" w' l]
    by (auto simp: Let_def split: if_splits prod.splits option.splits)
qed

lemma WriteBatch_loop_fault:
  "WriteBatch_loop hec cd srv i xs buf ls w = (Inl e, w') \<Longrightarrow> \<not> no_fault (Some e)"
  using WriteBatch_loop_error [of hec cd srv i xs buf ls w _ w'] by (auto simp: no_fault_iff)

lemma positions_nth: "positions P 0 xs = filter (\<lambda>k. P (xs ! k)) [0..<length xs]"
proof -
  have "enumerate 0 xs = map (\<lambda>k. (k, xs ! k)) [0..<length xs]"
    by (rule nth_equalityI) (simp_all add: nth_enumerate_eq)
  then show ?thesis
    by (simp add: positions_def filter_map comp_def)
qed


section \<open>The raw loop and the scanner\<close>

lemma write_body_logged:
  assumes "write_body hec srv data w = (r, w')" and "logged w"
  shows "logged w'"
proof -
  from write_body_sent [OF assms(1)] obtain k where "sent w' = sent w @ replicate k data" ..
  with write_body_emitted [OF assms(1)] assms(2) show ?thesis
    by (auto simp: logged_def)
qed

lemma WriteRaw_loop_clean:
  "WriteRaw_loop hec srv n xs buf tls w = (Inr p, w') \<Longrightarrow> clean w \<Longrightarrow> clean w'"
proof (induction xs arbitrary: n buf tls w)
  case Nil
  then show ?case by simp
next
  case (Cons x xs)
  from Cons.prems show ?case
    by (auto split: if_splits prod.splits option.splits dest: Cons.IH write_body_clean)
qed

lemma WriteRaw_loop_error:
  "WriteRaw_loop hec srv n xs buf tls w \<noteq> (Inl (ErrEventTooLong l), w')"
proof (induction xs arbitrary: n buf tls w)
  case Nil
  then show ?case by simp
next
  case (Cons x xs)
  show ?case
    using Cons.IH write_body_error [of hec srv buf w "ErrEventTooLong l" w' l]
    by (auto split: if_splits prod.splits option.splits)
qed

lemma WriteRaw_loop_fault:
  "WriteRaw_loop hec srv n xs buf tls w = (Inl e, w') \<Longrightarrow> \<not> no_fault (Some e)"
  using WriteRaw_loop_error [of hec srv n xs buf tls w _ w'] by (auto simp: no_fault_iff)

lemma WriteRaw_loop_failed:
  "WriteRaw_loop hec srv n xs buf tls w = (Inl e, w') \<Longrightarrow> clean w \<Longrightarrow>
     emitted w' \<noteq> [] \<and> snd (last (emitted w')) = Some e \<and>
     list_all (\<lambda>x. snd x = None) (butlast (emitted w'))"
proof (induction xs arbitrary: n buf tls w)
  case Nil
  then show ?case by simp
next
  case (Cons x xs)
  show ?case
  proof (cases "short_line hec x \<and> int (length buf) + int (length x) + 1 > maxLength hec")
    case False
    with Cons.prems Cons.IH show ?thesis
      by (auto simp: short_line_def long_line_def split: if_splits)
  next
    case True
    obtain r w1 where w1: "write_body hec srv buf w = (r, w1)" by (cases "write_body hec srv buf w")
    show ?thesis
    proof (cases r)
      case None
      with True w1 Cons.prems have "WriteRaw_loop hec srv (Suc n) xs (x @ [LF]) tls w1 = (Inl e, w')"
        by (auto simp: short_line_def long_line_def split: if_splits)
      moreover have "clean w1" using w1 None Cons.prems write_body_clean by blast
      ultimately show ?thesis by (rule Cons.IH)
    next
      case (Some err)
      with True w1 Cons.prems have "err = e" "w1 = w'"
        by (auto simp: short_line_def long_line_def split: if_splits)
      with w1 Some write_body_failed [of hec srv buf w e w'] Cons.prems(2)
      show ?thesis by (auto simp: clean_def)
    qed
  qed
qed

lemma WriteRaw_loop_append:
  "WriteRaw_loop hec srv n xs buf tls w = (Inl e, w') \<Longrightarrow>
   WriteRaw_loop hec srv n (xs @ ys) buf tls w = (Inl e, w')"
proof (induction xs arbitrary: n buf tls w)
  case Nil
  then show ?case by simp
next
  case (Cons x xs)
  from Cons.prems show ?case
    by (auto split: if_splits prod.splits option.splits dest: Cons.IH)
qed

lemma WriteRaw_loop_tooLongs:
  "WriteRaw_loop hec srv n xs buf tls w = (Inr (buf', tls'), w') \<Longrightarrow>
   tls' = tls @ positions (long_line hec) n xs"
proof (induction xs arbitrary: n buf tls w)
  case Nil
  then show ?case by (simp add: positions_def)
next
  case (Cons x xs)
  from Cons.prems show ?case
    by (auto simp: positions_def long_line_def enumerate_simps
        split: if_splits prod.splits option.splits dest: Cons.IH)
qed

lemma WriteRaw_loop_stream:
  "WriteRaw_loop hec srv n xs buf tls w = (Inr (buf', tls'), w') \<Longrightarrow>
   concat (map fst (emitted w')) @ buf' =
     concat (map fst (emitted w)) @ buf @ concat (map terminated (filter (short_line hec) xs))"
proof (induction xs arbitrary: n buf tls w)
  case Nil
  then show ?case by simp
next
  case (Cons x xs)
  show ?case
  proof (cases "short_line hec x")
    case False
    with Cons.prems Cons.IH show ?thesis
      by (auto simp: short_line_def long_line_def split: if_splits)
  next
    case True
    show ?thesis
    proof (cases "int (length buf) + int (length x) + 1 > maxLength hec")
      case False
      with True Cons.prems have
        "WriteRaw_loop hec srv (Suc n) xs (buf @ x @ [LF]) tls w = (Inr (buf', tls'), w')"
        by (auto simp: short_line_def long_line_def split: if_splits)
      from Cons.IH [OF this] True show ?thesis by (simp add: terminated_def)
    next
      case over: True
      obtain r w1 where w1: "write_body hec srv buf w = (r, w1)" by (cases "write_body hec srv buf w")
      with over True Cons.prems have r: "r = None"
        and rec: "WriteRaw_loop hec srv (Suc n) xs (x @ [LF]) tls w1 = (Inr (buf', tls'), w')"
        by (auto simp: short_line_def long_line_def split: if_splits option.splits)
      have "concat (map fst (emitted w1)) = concat (map fst (emitted w)) @ buf"
        using write_body_emitted [OF w1] by simp
      with Cons.IH [OF rec] True show ?thesis by (simp add: terminated_def)
    qed
  qed
qed

lemma WriteRaw_loop_whole_lines:
  assumes "WriteRaw_loop hec srv n xs buf tls w = (res, w')"
    and "buf = concat (map terminated bl)"
    and "all = pre @ bl @ filter (short_line hec) xs"
    and "list_all (\<lambda>x. whole_lines all (fst x)) (emitted w)"
  shows "list_all (\<lambda>x. whole_lines all (fst x)) (emitted w') \<and>
         (\<forall>buf' tls'. res = Inr (buf', tls') \<longrightarrow> whole_lines all buf')"
  using assms
proof (induction xs arbitrary: n buf tls w bl pre)
  case Nil
  then show ?case by (auto simp: whole_lines_def)
next
  case (Cons x xs)
  show ?case
  proof (cases "short_line hec x")
    case False
    have run: "WriteRaw_loop hec srv (Suc n) xs buf (tls @ [n]) w = (res, w')"
      using False Cons.prems(1) by (simp add: short_line_def long_line_def)
    have all: "all = pre @ bl @ filter (short_line hec) xs"
      using False Cons.prems(3) by simp
    from Cons.IH [OF run Cons.prems(2) all Cons.prems(4)] show ?thesis .
  next
    case True
    show ?thesis
    proof (cases "int (length buf) + int (length x) + 1 > maxLength hec")
      case False
      with True Cons.prems have run:
        "WriteRaw_loop hec srv (Suc n) xs (buf @ x @ [LF]) tls w = (res, w')"
        by (auto simp: short_line_def long_line_def split: if_splits)
      have buf: "buf @ x @ [LF] = concat (map terminated (bl @ [x]))"
        using Cons.prems(2) by (simp add: terminated_def [of x])
      have all: "all = pre @ (bl @ [x]) @ filter (short_line hec) xs"
        using Cons.prems(3) True by simp
      from Cons.IH [OF run buf all Cons.prems(4)] show ?thesis .
    next
      case over: True
      obtain r w1 where w1: "write_body hec srv buf w = (r, w1)" by (cases "write_body hec srv buf w")
      have "whole_lines all buf"
        unfolding whole_lines_def using Cons.prems(2,3) by (intro exI [of _ bl]) simp
      with write_body_emitted [OF w1] Cons.prems(4)
      have log: "list_all (\<lambda>x. whole_lines all (fst x)) (emitted w1)" by simp
      show ?thesis
      proof (cases r)
        case (Some err)
        with over True w1 Cons.prems(1) have "res = Inl err" "w' = w1"
          by (auto simp: short_line_def long_line_def split: if_splits)
        with log show ?thesis by simp
      next
        case None
        with over True w1 Cons.prems(1) have run:
          "WriteRaw_loop hec srv (Suc n) xs (x @ [LF]) tls w1 = (res, w')"
          by (auto simp: short_line_def long_line_def split: if_splits)
        have buf: "x @ [LF] = concat (map terminated [x])" by (simp add: terminated_def)
        have all: "all = (pre @ bl) @ [x] @ filter (short_line hec) xs"
          using Cons.prems(3) True by simp
        from Cons.IH [OF run buf all log] show ?thesis .
      qed
    qed
  qed
qed

lemma WriteBatch_loop_logged:
  "WriteBatch_loop hec cd srv i xs buf ls w = (res, w') \<Longrightarrow> logged w \<Longrightarrow> logged w'"
proof (induction xs arbitrary: i buf ls w)
  case Nil
  then show ?case by simp
next
  case (Cons x xs)
  from Cons.prems show ?case
    by (auto simp: Let_def split: if_splits prod.splits option.splits
        dest: Cons.IH write_body_logged)
qed

lemma WriteRaw_loop_logged:
  "WriteRaw_loop hec srv n xs buf tls w = (res, w') \<Longrightarrow> logged w \<Longrightarrow> logged w'"
proof (induction xs arbitrary: n buf tls w)
  case Nil
  then show ?case by simp
next
  case (Cons x xs)
  from Cons.prems show ?case
    by (auto split: if_splits prod.splits option.splits dest: Cons.IH write_body_logged)
qed

lemma finish_logged:
  "finish hec srv buf ls w = (r, w') \<Longrightarrow> logged w \<Longrightarrow> logged w'"
  by (auto simp: finish_def split: if_splits prod.splits option.splits dest: write_body_logged)

lemma logged_idle: "logged idle"
  by (simp add: logged_def idle_def)

lemma WriteBatch_loop_bounded:
  assumes "WriteBatch_loop hec cd srv i xs buf ls w = (res, w')"
    and "buf = [] \<or> bounded hec buf"
    and "list_all (\<lambda>x. bounded hec (fst x)) (emitted w)"
  shows "list_all (\<lambda>x. bounded hec (fst x)) (emitted w') \<and>
         (\<forall>buf' ls'. res = Inr (buf', ls') \<longrightarrow> buf' = [] \<or> bounded hec buf')"
  using assms
proof (induction xs arbitrary: i buf ls w)
  case Nil
  then show ?case by auto
next
  case (Cons x xs)
  show ?case
  proof (cases "accepted hec cd x")
    case False
    with Cons.prems(1) have
      "WriteBatch_loop hec cd srv (Suc i) xs buf ls w = (res, w') \<or>
       WriteBatch_loop hec cd srv (Suc i) xs buf (ls @ [i]) w = (res, w')"
      by (auto simp: accepted_def Let_def split: if_splits)
    with Cons.IH Cons.prems(2,3) show ?thesis by blast
  next
    case True
    then have fits: "int (length (marshal cd x)) \<le> maxLength hec" and ne: "\<not> empty cd x"
      by (simp_all add: accepted_def)
    show ?thesis
    proof (cases "int (length buf) + int (length (marshal cd x)) > maxLength hec")
      case False
      with ne fits Cons.prems(1) have run:
        "WriteBatch_loop hec cd srv (Suc i) xs (buf @ marshal cd x) ls w = (res, w')"
        by (simp add: Let_def)
      have "buf @ marshal cd x = [] \<or> bounded hec (buf @ marshal cd x)"
        using False by (auto simp: bounded_def Suc_le_eq)
      from Cons.IH [OF run this Cons.prems(3)] show ?thesis .
    next
      case over: True
      with fits Cons.prems(2) have b: "bounded hec buf"
        by (auto simp: bounded_def)
      obtain r w1 where w1: "write_body hec srv buf w = (r, w1)" by (cases "write_body hec srv buf w")
      with write_body_emitted [OF w1] b Cons.prems(3)
      have log: "list_all (\<lambda>x. bounded hec (fst x)) (emitted w1)" by simp
      show ?thesis
      proof (cases r)
        case (Some err)
        with over ne fits w1 Cons.prems(1) have "res = Inl err" "w' = w1"
          by (auto simp: Let_def)
        with log show ?thesis by simp
      next
        case None
        with over ne fits w1 Cons.prems(1) have run:
          "WriteBatch_loop hec cd srv (Suc i) xs (marshal cd x) ls w1 = (res, w')"
          by (auto simp: Let_def)
        have "marshal cd x = [] \<or> bounded hec (marshal cd x)"
          using fits by (auto simp: bounded_def Suc_le_eq)
        from Cons.IH [OF run this log] show ?thesis .
      qed
    qed
  qed
qed

lemma WriteBatch_bounded:
  assumes "WriteBatch hec cd srv events idle = (r, w)"
  shows "\<forall>body \<in> set (sent w). 1 \<le> length body \<and> int (length body) \<le> maxLength hec"
proof -
  have "logged w \<and> list_all (\<lambda>x. bounded hec (fst x)) (emitted w)"
  proof (cases "events = []")
    case True
    with assms show ?thesis by (auto simp: WriteBatch_def logged_idle) (simp add: idle_def)
  next
    case False
    obtain res w1 where loop: "WriteBatch_loop hec cd srv 0 events [] [] idle = (res, w1)"
      by (cases "WriteBatch_loop hec cd srv 0 events [] [] idle")
    have l1: "logged w1" using loop logged_idle by (rule WriteBatch_loop_logged)
    have b1: "list_all (\<lambda>x. bounded hec (fst x)) (emitted w1) \<and>
         (\<forall>buf' ls'. res = Inr (buf', ls') \<longrightarrow> buf' = [] \<or> bounded hec buf')"
      using loop by (rule WriteBatch_loop_bounded) (simp_all add: idle_def)
    show ?thesis
    proof (cases res)
      case (Inl e)
      with assms False loop l1 b1 show ?thesis by (simp add: WriteBatch_def)
    next
      case (Inr p)
      obtain buf ls where p: "p = (buf, ls)" by (cases p)
      with assms False loop Inr have fin: "finish hec srv buf ls w1 = (r, w)"
        by (simp add: WriteBatch_def)
      from b1 Inr p have buf: "buf = [] \<or> bounded hec buf" by simp
      have "list_all (\<lambda>x. bounded hec (fst x)) (emitted w)"
      proof (cases "buf = []")
        case True
        with fin b1 show ?thesis by (auto simp: finish_def split: if_splits)
      next
        case False
        obtain r2 w2 where w2: "write_body hec srv buf w1 = (r2, w2)"
          by (cases "write_body hec srv buf w1")
        with fin False have "w = w2" by (auto simp: finish_def split: if_splits option.splits)
        with write_body_emitted [OF w2] b1 buf False show ?thesis by simp
      qed
      with finish_logged [OF fin l1] show ?thesis by simp
    qed
  qed
  then show ?thesis
    by (auto simp: logged_def list_all_iff bounded_def)
qed

lemma dropCR_no_CR: "CR \<notin> set line \<Longrightarrow> dropCR line = line"
  by (auto simp: dropCR_def dest: last_in_set)

lemma scan_concat:
  "length data < MaxScanTokenSize \<Longrightarrow> CR \<notin> set data \<Longrightarrow>
   concat (map terminated (scan data)) = (if data = [] \<or> last data = LF then data else data @ [LF])"
proof (induction data rule: scan.induct)
  case (1 data)
  let ?line = "takeWhile (\<lambda>b. b \<noteq> LF) data"
  let ?rest = "dropWhile (\<lambda>b. b \<noteq> LF) data"
  show ?case
  proof (cases "data = []")
    case True
    then show ?thesis by (simp add: scan.simps [of "[]"])
  next
    case False
    have split: "data = ?line @ ?rest" by simp
    have len: "\<not> MaxScanTokenSize \<le> length ?line"
      using "1.prems"(1) length_takeWhile_le [of "\<lambda>b. b \<noteq> LF" data] by simp
    have cr: "dropCR ?line = ?line"
      using "1.prems"(2) by (intro dropCR_no_CR) (auto dest: set_takeWhileD)
    have unfold: "scan data = ?line # scan (drop (Suc (length ?line)) data)"
      using False len cr by (subst scan.simps) (simp add: Let_def)
    show ?thesis
    proof (cases ?rest)
      case Nil
      then have nolf: "\<forall>b \<in> set data. b \<noteq> LF" by (simp add: dropWhile_eq_Nil_conv)
      then have all: "?line = data" by (simp add: takeWhile_eq_all_conv)
      from nolf False have "last data \<noteq> LF" using last_in_set by blast
      then show ?thesis
        using False unfold by (simp add: all scan.simps [of "[]"] terminated_def [of data])
    next
      case (Cons y ys)
      then have y: "y = LF" using hd_dropWhile [of "\<lambda>b. b \<noteq> LF" data] by (metis list.sel(1) list.simps(3))
      from Cons y split have data: "data = ?line @ LF # ys" by simp
      have rest: "drop (Suc (length ?line)) data = ys"
        by (subst data) simp
      have "length ys < MaxScanTokenSize"
        using "1.prems"(1) by (subst (asm) data) simp
      moreover have "CR \<notin> set ys"
        using "1.prems"(2) by (subst (asm) data) simp
      ultimately have ih: "concat (map terminated (scan ys)) =
          (if ys = [] \<or> last ys = LF then ys else ys @ [LF])"
        using "1.IH" [OF False refl len] rest by simp
      have "concat (map terminated (scan data)) = ?line @ LF # concat (map terminated (scan ys))"
        using unfold rest by (simp add: terminated_def [of ?line])
      also have "\<dots> = (if ys = [] \<or> last ys = LF then ?line @ LF # ys else (?line @ LF # ys) @ [LF])"
        using ih by simp
      also have "\<dots> = (if data = [] \<or> last data = LF then data else data @ [LF])"
        by (subst (2 3 4 5) data) (simp del: takeWhile_dropWhile_id)
      finally show ?thesis .
    qed
  qed
qed

lemma positions_Suc: "positions P (Suc n) xs = map Suc (positions P n xs)"
  by (simp add: positions_def enumerate_Suc_eq filter_map comp_def)

section \<open>Properties of the batch call\<close>

text \<open>
  Claim C8. When every record of the list is empty, the empty list included,
  \<open>WriteBatch\<close> returns nil and leaves the wire as it found it: no body is handed to
  \<open>write\<close> and no request is made, whatever the remote end would answer.
\<close>

theorem WriteBatch_all_empty:
  assumes "list_all (empty cd) events"
  shows "WriteBatch hec cd srv events w = (None, w)"
  using WriteBatch_loop_all_empty [OF assms, of hec srv 0 "[]" "[]" w]
  by (simp add: WriteBatch_def finish_def)

theorem WriteBatch_all_empty_witness:
  "list_all (empty text_codec) [[], []] \<and>
   WriteBatch (client 25) text_codec unreachable [[], []] idle = (None, idle) \<and>
   WriteBatch (client 25) text_codec unreachable [] idle = (None, idle)"
  using WriteBatch_all_empty [of text_codec "[[], []]" "client 25" unreachable idle]
    WriteBatch_all_empty [of text_codec "[]" "client 25" unreachable idle]
  by (simp add: text_codec_def)

text \<open>
  Claim C2 fails as stated: the error of a transmission ends the call (\<open>return err\<close>),
  and the records behind it are never put into a body. Here the remote end cannot be
  reached, the first body of 21 bytes is the only one emitted, and the two records have
  42 bytes.
\<close>

theorem WriteBatch_bytes_counterexample:
  "emitted_bytes (snd (WriteBatch (client 25) text_codec unreachable
       [''event one'', ''event two''] idle)) = 21 \<and>
   accepted_bytes (client 25) text_codec [''event one'', ''event two''] = 42 \<and>
   emitted_bytes (snd (WriteBatch (client 25) text_codec unreachable
       [''event one'', ''event two''] idle)) \<noteq>
   accepted_bytes (client 25) text_codec [''event one'', ''event two'']"
  by (simp add: sample_defs run_defs emitted_bytes_def accepted_bytes_def accepted_def)

text \<open>
  Claim C2, amended. When a batch call ends without the error of a transmission (it
  returns nil or the too-long error), the bodies it has emitted have together exactly
  as many bytes as the encodings of the records that are not empty and not longer than
  \<open>maxLength\<close>: no byte is lost and none is added.
\<close>

theorem WriteBatch_bytes:
  assumes "WriteBatch hec cd srv events idle = (r, w)" and "no_fault r"
  shows "emitted_bytes w = accepted_bytes hec cd events"
proof (cases "events = []")
  case True
  with assms show ?thesis
    by (simp add: WriteBatch_def emitted_bytes_idle accepted_bytes_def)
next
  case False
  obtain res w1 where loop: "WriteBatch_loop hec cd srv 0 events [] [] idle = (res, w1)"
    by (cases "WriteBatch_loop hec cd srv 0 events [] [] idle")
  show ?thesis
  proof (cases res)
    case (Inl e)
    with assms False loop WriteBatch_loop_fault [of hec cd srv 0 events "[]" "[]" idle e w1]
    show ?thesis by (simp add: WriteBatch_def)
  next
    case (Inr p)
    obtain buf ls where p: "p = (buf, ls)" by (cases p)
    with assms False loop Inr have fin: "finish hec srv buf ls w1 = (r, w)"
      by (simp add: WriteBatch_def)
    from WriteBatch_loop_bytes [of hec cd srv 0 events "[]" "[]" idle buf ls w1] loop Inr p
    have "emitted_bytes w1 + length buf = accepted_bytes hec cd events"
      by (simp add: emitted_bytes_idle)
    with finish_no_fault(2) [OF fin assms(2)] show ?thesis by simp
  qed
qed

theorem WriteBatch_bytes_witness:
  "no_fault (fst (WriteBatch (client 25) text_codec always_ok [''event one'', [], ''event two''] idle)) \<and>
   emitted_bytes (snd (WriteBatch (client 25) text_codec always_ok [''event one'', [], ''event two''] idle)) = 42 \<and>
   map fst (emitted (snd (WriteBatch (client 25) text_codec always_ok [''event one'', [], ''event two''] idle))) =
     [marshal text_codec ''event one'', marshal text_codec ''event two'']"
proof -
  let ?run = "WriteBatch (client 25) text_codec always_ok [''event one'', [], ''event two''] idle"
  have run: "?run = (fst ?run, snd ?run)" by simp
  have ok: "no_fault (fst ?run)"
    by (simp add: sample_defs run_defs)
  have "accepted_bytes (client 25) text_codec [''event one'', [], ''event two''] = 42"
    by (simp add: sample_defs accepted_bytes_def accepted_def)
  with WriteBatch_bytes [OF run ok] have "emitted_bytes (snd ?run) = 42" by simp
  moreover have "map fst (emitted (snd ?run)) =
     [marshal text_codec ''event one'', marshal text_codec ''event two'']"
    by (simp add: sample_defs run_defs)
  ultimately show ?thesis using ok by simp
qed

text \<open>
  Claim C3 fails as stated: the test \<open>event.empty()\<close> comes before the test of the
  length, so an empty record is never listed, however long its encoding is. Here the
  limit is 5, the empty record at position 0 has an encoding of 12 bytes, and the list
  that is reported holds position 1 only.
\<close>

theorem WriteBatch_reports_counterexample:
  "fst (WriteBatch (client 5) text_codec always_ok [[], ''event one''] idle) =
     Some (ErrEventTooLong [1]) \<and>
   int (length (marshal text_codec ([[], ''event one''] ! 0))) > maxLength (client 5)"
  by (simp add: sample_defs run_defs)

text \<open>
  Claim C3, amended. When a batch call ends without the error of a transmission, it
  returns the too-long error with exactly the positions, counted from 0 over all
  records (the empty ones included), of the records that are not empty and whose
  encoding is longer than \<open>maxLength\<close>, in strictly ascending order; it returns nil
  when there is no such record.
\<close>

theorem WriteBatch_reports:
  assumes "WriteBatch hec cd srv events idle = (r, w)" and "no_fault r"
  shows "r = (if filter (\<lambda>k. oversize hec cd (events ! k)) [0..<length events] = [] then None
              else Some (ErrEventTooLong (filter (\<lambda>k. oversize hec cd (events ! k)) [0..<length events])))
         \<and> sorted_wrt (<) (filter (\<lambda>k. oversize hec cd (events ! k)) [0..<length events])"
proof -
  let ?over = "filter (\<lambda>k. oversize hec cd (events ! k)) [0..<length events]"
  have sorted: "sorted_wrt (<) ?over"
    by (rule sorted_wrt_filter) simp
  have "r = (if ?over = [] then None else Some (ErrEventTooLong ?over))"
  proof (cases "events = []")
    case True
    with assms show ?thesis by (simp add: WriteBatch_def)
  next
    case False
    obtain res w1 where loop: "WriteBatch_loop hec cd srv 0 events [] [] idle = (res, w1)"
      by (cases "WriteBatch_loop hec cd srv 0 events [] [] idle")
    show ?thesis
    proof (cases res)
      case (Inl e)
      with assms False loop WriteBatch_loop_fault [of hec cd srv 0 events "[]" "[]" idle e w1]
      show ?thesis by (simp add: WriteBatch_def)
    next
      case (Inr p)
      obtain buf ls where p: "p = (buf, ls)" by (cases p)
      with assms False loop Inr have fin: "finish hec srv buf ls w1 = (r, w)"
        by (simp add: WriteBatch_def)
      from WriteBatch_loop_tooLongs [of hec cd srv 0 events "[]" "[]" idle buf ls w1] loop Inr p
      have "ls = ?over" by (simp add: positions_nth)
      with finish_no_fault(1) [OF fin assms(2)] show ?thesis by simp
    qed
  qed
  with sorted show ?thesis by simp
qed

theorem WriteBatch_reports_witness:
  "no_fault (fst (WriteBatch (client 25) text_codec always_ok
      [''a payload of more than 25 bytes'', [], ''event one'', ''another payload of more than 25 bytes''] idle)) \<and>
   fst (WriteBatch (client 25) text_codec always_ok
      [''a payload of more than 25 bytes'', [], ''event one'', ''another payload of more than 25 bytes''] idle) =
     Some (ErrEventTooLong [0, 3])"
proof -
  let ?events = "[''a payload of more than 25 bytes'', [], ''event one'', ''another payload of more than 25 bytes'']"
  let ?run = "WriteBatch (client 25) text_codec always_ok ?events idle"
  have run: "?run = (fst ?run, snd ?run)" by simp
  have ok: "no_fault (fst ?run)"
    by (simp add: sample_defs run_defs)
  have "filter (\<lambda>k. oversize (client 25) text_codec (?events ! k)) [0..<length ?events] = [0, 3]"
    by (simp add: sample_defs oversize_def upt_rec)
  with WriteBatch_reports [OF run ok] show ?thesis using ok by simp
qed

section \<open>Properties of the single-event call\<close>

text \<open>
  Claim C10. \<open>WriteEvent\<close> on an empty event returns nil and makes no request. On an
  event that is not empty and whose encoding is longer than \<open>maxLength\<close> it returns the
  too-long error with the nil index list and makes no request. On any other event it is
  one call of \<open>write\<close> with the encoding as the body.
\<close>

theorem WriteEvent_cases:
  "(empty cd event \<longrightarrow> WriteEvent hec cd srv event w = (None, w)) \<and>
   (\<not> empty cd event \<longrightarrow> int (length (marshal cd event)) > maxLength hec \<longrightarrow>
      WriteEvent hec cd srv event w = (Some (ErrEventTooLong []), w) \<and> GetIndexes [] = []) \<and>
   (\<not> empty cd event \<longrightarrow> int (length (marshal cd event)) \<le> maxLength hec \<longrightarrow>
      WriteEvent hec cd srv event w = write_body hec srv (marshal cd event) w \<and>
      emitted (snd (WriteEvent hec cd srv event w)) =
        emitted w @ [(marshal cd event, fst (WriteEvent hec cd srv event w))])"
proof -
  have "emitted (snd (write_body hec srv (marshal cd event) w)) =
      emitted w @ [(marshal cd event, fst (write_body hec srv (marshal cd event) w))]"
    by (rule write_body_emitted) simp
  then show ?thesis
    by (simp add: WriteEvent_def Let_def GetIndexes_def)
qed

theorem WriteEvent_cases_witness:
  "WriteEvent (client 20) text_codec always_ok [] idle = (None, idle) \<and>
   WriteEvent (client 20) text_codec always_ok ''hello, world'' idle = (Some (ErrEventTooLong []), idle) \<and>
   WriteEvent (client 25) text_codec always_ok ''hello, world'' idle =
     (None, \<lparr>emitted = [(marshal text_codec ''hello, world'', None)],
             sent = [marshal text_codec ''hello, world''], sleeps = 0\<rparr>)"
proof -
  have 1: "empty text_codec []" by (simp add: text_codec_def)
  have 2: "\<not> empty text_codec ''hello, world''" by (simp add: text_codec_def)
  have 3: "int (length (marshal text_codec ''hello, world'')) > maxLength (client 20)"
    by (simp add: sample_defs)
  have 4: "int (length (marshal text_codec ''hello, world'')) \<le> maxLength (client 25)"
    by (simp add: sample_defs)
  have 5: "write_body (client 25) always_ok (marshal text_codec ''hello, world'') idle =
     (None, \<lparr>emitted = [(marshal text_codec ''hello, world'', None)],
             sent = [marshal text_codec ''hello, world''], sleeps = 0\<rparr>)"
    by (simp add: sample_defs run_defs)
  from WriteEvent_cases [of text_codec "[]" "client 20" always_ok idle]
    WriteEvent_cases [of text_codec "''hello, world''" "client 20" always_ok idle]
    WriteEvent_cases [of text_codec "''hello, world''" "client 25" always_ok idle]
    1 2 3 4 5
  show ?thesis by simp
qed

section \<open>Properties of the raw call\<close>

text \<open>
  Claim C1 holds in batch mode (\<open>WriteBatch_bounded\<close>) and fails in raw mode on a line
  whose length is exactly \<open>maxLength\<close>. Such a line is not listed as too long; the test
  before the append counts its terminator, so the buffer is handed to \<open>write\<close> while it
  is still empty, and the line with its terminator, one byte more than the limit, becomes
  the next body. With the limit 3 and the input \<open>abc\<close> the first request has an empty
  body and the second one has 4 bytes.
\<close>

theorem WriteRaw_line_of_maxLength:
  "WriteRaw (client 3) always_ok ''abc'' idle =
     (None, \<lparr>emitted = [([], None), (''abc'' @ [LF], None)],
             sent = [[], ''abc'' @ [LF]], sleeps = 0\<rparr>) \<and>
   \<not> long_line (client 3) ''abc'' \<and> int (length (''abc'' @ [LF])) > maxLength (client 3)"
  by (simp add: sample_defs run_defs scan.simps MaxScanTokenSize_def dropCR_def LF_def CR_def
      long_line_def)

lemma WriteRaw_reports:
  assumes "WriteRaw hec srv input idle = (r, w)" and "no_fault r"
  shows "r = (if filter (\<lambda>k. long_line hec (scan input ! k)) [0..<length (scan input)] = [] then None
              else Some (ErrEventTooLong
                (map Suc (filter (\<lambda>k. long_line hec (scan input ! k)) [0..<length (scan input)]))))"
proof -
  obtain res w1 where loop: "WriteRaw_loop hec srv 1 (scan input) [] [] idle = (res, w1)"
    by (cases "WriteRaw_loop hec srv 1 (scan input) [] [] idle")
  show ?thesis
  proof (cases res)
    case (Inl e)
    with assms loop WriteRaw_loop_fault [of hec srv 1 "scan input" "[]" "[]" idle e w1]
    show ?thesis by (simp add: WriteRaw_def)
  next
    case (Inr p)
    obtain buf tls where p: "p = (buf, tls)" by (cases p)
    with assms loop Inr have fin: "finish hec srv buf tls w1 = (r, w)"
      by (simp add: WriteRaw_def)
    from WriteRaw_loop_tooLongs [of hec srv 1 "scan input" "[]" "[]" idle buf tls w1] loop Inr p
    have "tls = map Suc (filter (\<lambda>k. long_line hec (scan input ! k)) [0..<length (scan input)])"
      using positions_Suc [of "long_line hec" 0 "scan input"] by (simp add: positions_nth)
    with finish_no_fault(1) [OF fin assms(2)] show ?thesis by simp
  qed
qed

text \<open>
  Claim C4 fails on a line that does not fit the buffer of the scanner. \<open>Scan\<close> returns
  false there, the loop ends as it does at the end of the input, and \<open>scanner.Err()\<close> is
  never read: the line is not reported although it is longer than \<open>maxLength\<close>, and
  everything behind it is dropped. With the limit 10 and one line of 70000 bytes the call
  returns nil without any request. For the lines the scanner does deliver, the numbers
  reported are right (\<open>WriteRaw_reports\<close>).
\<close>

theorem WriteRaw_line_beyond_scanner:
  "WriteRaw (client 10) always_ok (replicate 70000 (CHR ''a'')) idle = (None, idle) \<and>
   scan (replicate 70000 (CHR ''a'')) = []"
  by (simp add: sample_defs run_defs scan.simps [of "replicate 70000 (CHR ''a'')"]
      MaxScanTokenSize_def LF_def takeWhile_replicate)

lemma finish_whole_lines:
  assumes "finish hec srv buf tls w = (r, w')"
    and "whole_lines all buf"
    and "list_all (\<lambda>x. whole_lines all (fst x)) (emitted w)"
  shows "list_all (\<lambda>x. whole_lines all (fst x)) (emitted w')"
proof (cases "buf = []")
  case True
  with assms show ?thesis by (auto simp: finish_def split: if_splits)
next
  case False
  obtain r1 w1 where w1: "write_body hec srv buf w = (r1, w1)"
    by (cases "write_body hec srv buf w")
  with assms(1) False have "w' = w1" by (auto simp: finish_def split: if_splits option.splits)
  with write_body_emitted [OF w1] assms(2,3) show ?thesis by simp
qed

lemma WriteRaw_whole_lines:
  assumes "WriteRaw hec srv input idle = (r, w)"
  shows "logged w \<and>
     list_all (\<lambda>x. whole_lines (filter (short_line hec) (scan input)) (fst x)) (emitted w)"
proof -
  let ?all = "filter (short_line hec) (scan input)"
  obtain res w1 where loop: "WriteRaw_loop hec srv 1 (scan input) [] [] idle = (res, w1)"
    by (cases "WriteRaw_loop hec srv 1 (scan input) [] [] idle")
  have l1: "logged w1" using loop logged_idle by (rule WriteRaw_loop_logged)
  have b1: "list_all (\<lambda>x. whole_lines ?all (fst x)) (emitted w1) \<and>
      (\<forall>buf' tls'. res = Inr (buf', tls') \<longrightarrow> whole_lines ?all buf')"
    using loop by (rule WriteRaw_loop_whole_lines [where bl = "[]" and pre = "[]"])
      (simp_all add: idle_def)
  show ?thesis
  proof (cases res)
    case (Inl e)
    with assms loop l1 b1 show ?thesis by (simp add: WriteRaw_def)
  next
    case (Inr p)
    obtain buf tls where p: "p = (buf, tls)" by (cases p)
    with assms loop Inr have fin: "finish hec srv buf tls w1 = (r, w)"
      by (simp add: WriteRaw_def)
    from b1 Inr p have "whole_lines ?all buf" by simp
    from finish_whole_lines [OF fin this] b1 finish_logged [OF fin l1] show ?thesis by simp
  qed
qed

lemma WriteRaw_stream:
  assumes "WriteRaw hec srv input idle = (r, w)" and "no_fault r"
  shows "concat (map fst (emitted w)) = concat (map terminated (filter (short_line hec) (scan input)))"
proof -
  obtain res w1 where loop: "WriteRaw_loop hec srv 1 (scan input) [] [] idle = (res, w1)"
    by (cases "WriteRaw_loop hec srv 1 (scan input) [] [] idle")
  show ?thesis
  proof (cases res)
    case (Inl e)
    with assms loop WriteRaw_loop_fault [of hec srv 1 "scan input" "[]" "[]" idle e w1]
    show ?thesis by (simp add: WriteRaw_def)
  next
    case (Inr p)
    obtain buf tls where p: "p = (buf, tls)" by (cases p)
    with assms loop Inr have fin: "finish hec srv buf tls w1 = (r, w)"
      by (simp add: WriteRaw_def)
    from WriteRaw_loop_stream [of hec srv 1 "scan input" "[]" "[]" idle buf tls w1] loop Inr p
    have 1: "concat (map fst (emitted w1)) @ buf =
        concat (map terminated (filter (short_line hec) (scan input)))"
      by (simp add: idle_def)
    have "concat (map fst (emitted w)) = concat (map fst (emitted w1)) @ buf"
    proof (cases "buf = []")
      case True
      with fin show ?thesis by (auto simp: finish_def split: if_splits)
    next
      case False
      obtain r2 w2 where w2: "write_body hec srv buf w1 = (r2, w2)"
        by (cases "write_body hec srv buf w1")
      with fin False have "w = w2" by (auto simp: finish_def split: if_splits option.splits)
      with write_body_emitted [OF w2] show ?thesis by simp
    qed
    with 1 show ?thesis by simp
  qed
qed

text \<open>
  Claim C9. Every body that \<open>WriteRaw\<close> hands to \<open>write\<close>, and so every body that goes
  over the wire, is the concatenation of consecutive lines of the input that are not
  longer than \<open>maxLength\<close>, each followed by exactly one \<open>LF\<close>. When the call ends
  without the error of a transmission, the bodies together are exactly all those lines,
  in order, each with its \<open>LF\<close>. In particular, for an input without \<open>CR\<close> that the
  scanner reads to its end and that has no line longer than \<open>maxLength\<close>, the bytes
  transmitted are the input itself when it is empty or ends with \<open>LF\<close>, and the input
  with one more \<open>LF\<close> otherwise.
\<close>

theorem WriteRaw_bodies:
  assumes "WriteRaw hec srv input idle = (r, w)"
  shows "(\<forall>body \<in> set (sent w) \<union> fst ` set (emitted w).
            \<exists>ls. sublist ls (filter (short_line hec) (scan input)) \<and>
                 body = concat (map (\<lambda>line. line @ [LF]) ls)) \<and>
         (no_fault r \<longrightarrow>
            concat (map fst (emitted w)) =
              concat (map (\<lambda>line. line @ [LF]) (filter (short_line hec) (scan input)))) \<and>
         (no_fault r \<longrightarrow> length input < MaxScanTokenSize \<longrightarrow> CR \<notin> set input \<longrightarrow>
          list_all (short_line hec) (scan input) \<longrightarrow>
            concat (map fst (emitted w)) =
              (if input = [] \<or> last input = LF then input else input @ [LF]))"
proof -
  have t: "terminated = (\<lambda>line. line @ [LF])"
    by (rule ext) (simp add: terminated_def)
  from WriteRaw_whole_lines [OF assms]
  have 1: "\<forall>body \<in> set (sent w) \<union> fst ` set (emitted w).
            \<exists>ls. sublist ls (filter (short_line hec) (scan input)) \<and>
                 body = concat (map terminated ls)"
    by (auto simp: logged_def list_all_iff whole_lines_def)
  have 2: "concat (map fst (emitted w)) =
      concat (map terminated (filter (short_line hec) (scan input)))" if "no_fault r"
    using assms that by (rule WriteRaw_stream)
  have 3: "concat (map fst (emitted w)) =
      (if input = [] \<or> last input = LF then input else input @ [LF])"
    if "no_fault r" "length input < MaxScanTokenSize" "CR \<notin> set input"
      "list_all (short_line hec) (scan input)"
  proof -
    from that(4) have "filter (short_line hec) (scan input) = scan input"
      by (simp add: list_all_iff)
    with 2 [OF that(1)] scan_concat [OF that(2,3)] show ?thesis by simp
  qed
  from 1 2 3 show ?thesis unfolding t by blast
qed

theorem WriteRaw_bodies_witness:
  "WriteRaw (client 4) always_ok ''ab'' idle =
     (None, \<lparr>emitted = [(''ab'' @ [LF], None)], sent = [''ab'' @ [LF]], sleeps = 0\<rparr>) \<and>
   concat (map fst (emitted (snd (WriteRaw (client 4) always_ok ''ab'' idle)))) = ''ab'' @ [LF] \<and>
   (\<exists>ls. sublist ls (filter (short_line (client 4)) (scan ''ab'')) \<and>
         ''ab'' @ [LF] = concat (map (\<lambda>line. line @ [LF]) ls))"
proof -
  let ?run = "WriteRaw (client 4) always_ok ''ab'' idle"
  let ?w = "\<lparr>emitted = [(''ab'' @ [LF], None)], sent = [''ab'' @ [LF]], sleeps = 0\<rparr>"
  have run: "?run = (None, ?w)"
    by (simp add: sample_defs run_defs scan.simps MaxScanTokenSize_def dropCR_def LF_def CR_def)
  have lines: "scan ''ab'' = [''ab'']"
    by (simp add: scan.simps MaxScanTokenSize_def dropCR_def LF_def CR_def)
  have hyps: "no_fault None" "length ''ab'' < MaxScanTokenSize" "CR \<notin> set ''ab''"
    "list_all (short_line (client 4)) (scan ''ab'')"
    by (simp_all add: lines MaxScanTokenSize_def CR_def short_line_def long_line_def sample_defs)
  note facts = WriteRaw_bodies [OF run]
  have "''ab'' @ [LF] \<in> set (sent ?w) \<union> fst ` set (emitted ?w)" by simp
  with facts [THEN conjunct1] have body:
    "\<exists>ls. sublist ls (filter (short_line (client 4)) (scan ''ab'')) \<and>
         ''ab'' @ [LF] = concat (map (\<lambda>line. line @ [LF]) ls)"
    by (rule bspec)
  from facts [THEN conjunct2, THEN conjunct2] hyps
  have "concat (map fst (emitted ?w)) =
      (if ''ab'' = [] \<or> last ''ab'' = LF then ''ab'' else ''ab'' @ [LF])"
    by blast
  then have "concat (map fst (emitted (snd ?run))) = ''ab'' @ [LF]"
    unfolding run by (simp add: LF_def)
  with run body show ?thesis by blast
qed

section \<open>A failed transmission ends the call\<close>

lemma WriteBatch_trace:
  assumes "WriteBatch hec cd srv events idle = (r, w)"
  shows "list_all (\<lambda>x. snd x = None) (butlast (emitted w))"
    and "emitted w \<noteq> [] \<Longrightarrow> snd (last (emitted w)) = Some e \<Longrightarrow>
           r = Some e \<and> (\<forall>l. e \<noteq> ErrEventTooLong l)"
proof -
  have both: "list_all (\<lambda>x. snd x = None) (butlast (emitted w)) \<and>
      (emitted w \<noteq> [] \<longrightarrow> snd (last (emitted w)) = Some e \<longrightarrow>
         r = Some e \<and> (\<forall>l. e \<noteq> ErrEventTooLong l))"
  proof (cases "events = []")
    case True
    with assms show ?thesis by (auto simp: WriteBatch_def idle_def)
  next
    case False
    obtain res w1 where loop: "WriteBatch_loop hec cd srv 0 events [] [] idle = (res, w1)"
      by (cases "WriteBatch_loop hec cd srv 0 events [] [] idle")
    show ?thesis
    proof (cases res)
      case (Inl e')
      with assms False loop have r: "r = Some e'" "w = w1" by (simp_all add: WriteBatch_def)
      from WriteBatch_loop_failed [OF loop [unfolded Inl] clean_idle] r show ?thesis by auto
    next
      case (Inr p)
      obtain buf ls where p: "p = (buf, ls)" by (cases p)
      with assms False loop Inr have fin: "finish hec srv buf ls w1 = (r, w)"
        by (simp add: WriteBatch_def)
      have "clean w1" using loop [unfolded Inr] clean_idle by (rule WriteBatch_loop_clean)
      then show ?thesis
        using finish_failed(1) [OF fin] finish_failed(2) [OF fin, of e] by (auto simp: no_fault_iff)
    qed
  qed
  from both show "list_all (\<lambda>x. snd x = None) (butlast (emitted w))" by simp
  from both show "emitted w \<noteq> [] \<Longrightarrow> snd (last (emitted w)) = Some e \<Longrightarrow>
           r = Some e \<and> (\<forall>l. e \<noteq> ErrEventTooLong l)" by simp
qed

lemma WriteRaw_trace:
  assumes "WriteRaw hec srv input idle = (r, w)"
  shows "list_all (\<lambda>x. snd x = None) (butlast (emitted w))"
    and "emitted w \<noteq> [] \<Longrightarrow> snd (last (emitted w)) = Some e \<Longrightarrow>
           r = Some e \<and> (\<forall>l. e \<noteq> ErrEventTooLong l)"
proof -
  have both: "list_all (\<lambda>x. snd x = None) (butlast (emitted w)) \<and>
      (emitted w \<noteq> [] \<longrightarrow> snd (last (emitted w)) = Some e \<longrightarrow>
         r = Some e \<and> (\<forall>l. e \<noteq> ErrEventTooLong l))"
  proof -
    obtain res w1 where loop: "WriteRaw_loop hec srv 1 (scan input) [] [] idle = (res, w1)"
      by (cases "WriteRaw_loop hec srv 1 (scan input) [] [] idle")
    show ?thesis
    proof (cases res)
      case (Inl e')
      with assms loop have r: "r = Some e'" "w = w1" by (simp_all add: WriteRaw_def)
      from WriteRaw_loop_failed [OF loop [unfolded Inl] clean_idle]
        WriteRaw_loop_error [of hec srv 1 "scan input" "[]" "[]" idle _ w1] loop Inl r
      show ?thesis by auto
    next
      case (Inr p)
      obtain buf ls where p: "p = (buf, ls)" by (cases p)
      with assms loop Inr have fin: "finish hec srv buf ls w1 = (r, w)"
        by (simp add: WriteRaw_def)
      have "clean w1" using loop [unfolded Inr] clean_idle by (rule WriteRaw_loop_clean)
      then show ?thesis
        using finish_failed(1) [OF fin] finish_failed(2) [OF fin, of e] by (auto simp: no_fault_iff)
    qed
  qed
  from both show "list_all (\<lambda>x. snd x = None) (butlast (emitted w))" by simp
  from both show "emitted w \<noteq> [] \<Longrightarrow> snd (last (emitted w)) = Some e \<Longrightarrow>
           r = Some e \<and> (\<forall>l. e \<noteq> ErrEventTooLong l)" by simp
qed

lemma WriteBatch_append:
  assumes "WriteBatch_loop hec cd srv 0 events [] [] idle = (Inl e, w)"
  shows "WriteBatch hec cd srv (events @ rest) idle = (Some e, w)"
proof -
  from assms have "events \<noteq> []" by auto
  with WriteBatch_loop_append [OF assms, of rest] show ?thesis
    by (simp add: WriteBatch_def)
qed

text \<open>
  Claim C7. In batch mode and in raw mode alike, only the last body handed to \<open>write\<close>
  can have failed: after a failed transmission nothing more is emitted. The error of that
  transmission is what the call returns, and it is never the too-long error, so the list
  gathered so far is dropped. The records or lines behind the failure have no influence:
  once the loop has returned the error on a list, it returns the same error and leaves
  the same trace on every extension of that list.
\<close>

theorem failed_transmission_ends_call:
  "(WriteBatch hec cd srv events idle = (r, w) \<longrightarrow>
      list_all (\<lambda>x. snd x = None) (butlast (emitted w)) \<and>
      (emitted w \<noteq> [] \<longrightarrow> snd (last (emitted w)) = Some e \<longrightarrow>
         r = Some e \<and> (\<forall>l. e \<noteq> ErrEventTooLong l))) \<and>
   (WriteBatch_loop hec cd srv 0 events [] [] idle = (Inl e, w) \<longrightarrow>
      WriteBatch hec cd srv (events @ more_events) idle = (Some e, w)) \<and>
   (WriteRaw hec srv input idle = (r', w') \<longrightarrow>
      list_all (\<lambda>x. snd x = None) (butlast (emitted w')) \<and>
      (emitted w' \<noteq> [] \<longrightarrow> snd (last (emitted w')) = Some e' \<longrightarrow>
         r' = Some e' \<and> (\<forall>l. e' \<noteq> ErrEventTooLong l))) \<and>
   (WriteRaw_loop hec srv 1 lines [] [] idle = (Inl e', w') \<longrightarrow>
      WriteRaw_loop hec srv 1 (lines @ more_lines) [] [] idle = (Inl e', w'))"
proof (intro conjI impI)
  assume run: "WriteBatch hec cd srv events idle = (r, w)"
  from run show "list_all (\<lambda>x. snd x = None) (butlast (emitted w))"
    by (rule WriteBatch_trace(1))
  assume "emitted w \<noteq> []" and "snd (last (emitted w)) = Some e"
  with run show "r = Some e" and "\<forall>l. e \<noteq> ErrEventTooLong l"
    using WriteBatch_trace(2) by blast+
next
  assume "WriteBatch_loop hec cd srv 0 events [] [] idle = (Inl e, w)"
  then show "WriteBatch hec cd srv (events @ more_events) idle = (Some e, w)"
    by (rule WriteBatch_append)
next
  assume run: "WriteRaw hec srv input idle = (r', w')"
  from run show "list_all (\<lambda>x. snd x = None) (butlast (emitted w'))"
    by (rule WriteRaw_trace(1))
  assume "emitted w' \<noteq> []" and "snd (last (emitted w')) = Some e'"
  with run show "r' = Some e'" and "\<forall>l. e' \<noteq> ErrEventTooLong l"
    using WriteRaw_trace(2) by blast+
next
  assume "WriteRaw_loop hec srv 1 lines [] [] idle = (Inl e', w')"
  then show "WriteRaw_loop hec srv 1 (lines @ more_lines) [] [] idle = (Inl e', w')"
    by (rule WriteRaw_loop_append)
qed

theorem failed_transmission_ends_call_witness:
  "WriteBatch (client 25) text_codec unreachable
      [''a payload of more than 25 bytes'', ''event one'', ''event two''] idle =
     (Some (ErrTransport DoFailed),
      \<lparr>emitted = [(marshal text_codec ''event one'', Some (ErrTransport DoFailed))],
       sent = [marshal text_codec ''event one''], sleeps = 0\<rparr>) \<and>
   WriteBatch (client 25) text_codec unreachable
      ([''a payload of more than 25 bytes'', ''event one'', ''event two''] @ [''event three'']) idle =
     (Some (ErrTransport DoFailed),
      \<lparr>emitted = [(marshal text_codec ''event one'', Some (ErrTransport DoFailed))],
       sent = [marshal text_codec ''event one''], sleeps = 0\<rparr>) \<and>
   WriteRaw (client 25) unreachable
      (''a line of more than 25 bytes..'' @ [LF] @ ''0123456789'' @ [LF] @ ''0123456789abcde'') idle =
     (Some (ErrTransport DoFailed),
      \<lparr>emitted = [(''0123456789'' @ [LF], Some (ErrTransport DoFailed))],
       sent = [''0123456789'' @ [LF]], sleeps = 0\<rparr>) \<and>
   WriteRaw_loop (client 25) unreachable 1
      ([''a line of more than 25 bytes..'', ''0123456789'', ''0123456789abcde''] @ [''last line'']) [] [] idle =
     (Inl (ErrTransport DoFailed),
      \<lparr>emitted = [(''0123456789'' @ [LF], Some (ErrTransport DoFailed))],
       sent = [''0123456789'' @ [LF]], sleeps = 0\<rparr>)"
proof -
  let ?f = "ErrTransport DoFailed"
  let ?events = "[''a payload of more than 25 bytes'', ''event one'', ''event two'']"
  let ?w = "\<lparr>emitted = [(marshal text_codec ''event one'', Some ?f)],
       sent = [marshal text_codec ''event one''], sleeps = 0\<rparr>"
  let ?input = "''a line of more than 25 bytes..'' @ [LF] @ ''0123456789'' @ [LF] @ ''0123456789abcde''"
  let ?lines = "[''a line of more than 25 bytes..'', ''0123456789'', ''0123456789abcde'']"
  let ?w' = "\<lparr>emitted = [(''0123456789'' @ [LF], Some ?f)], sent = [''0123456789'' @ [LF]], sleeps = 0\<rparr>"
  have batch: "WriteBatch (client 25) text_codec unreachable ?events idle = (Some ?f, ?w)"
    by (simp add: sample_defs run_defs)
  have batch_loop: "WriteBatch_loop (client 25) text_codec unreachable 0 ?events [] [] idle = (Inl ?f, ?w)"
    by (simp add: sample_defs run_defs)
  have raw: "WriteRaw (client 25) unreachable ?input idle = (Some ?f, ?w')"
    by (simp add: sample_defs run_defs scan.simps MaxScanTokenSize_def dropCR_def LF_def CR_def)
  have raw_loop: "WriteRaw_loop (client 25) unreachable 1 ?lines [] [] idle = (Inl ?f, ?w')"
    by (simp add: sample_defs run_defs)
  have last: "emitted ?w \<noteq> []" "snd (last (emitted ?w)) = Some ?f"
    "emitted ?w' \<noteq> []" "snd (last (emitted ?w')) = Some ?f"
    by simp_all
  from failed_transmission_ends_call [where hec = "client 25" and cd = text_codec
      and srv = unreachable and events = ?events and r = "Some ?f" and w = ?w and e = ?f
      and more_events = "[''event three'']" and input = ?input and r' = "Some ?f"
      and w' = ?w' and e' = ?f and lines = ?lines and more_lines = "[''last line'']"]
    batch batch_loop raw raw_loop last
  show ?thesis by blast
qed

end
